theory Spec2Isabelle
  imports Main "HOL-Library.Multiset" "HOL-Library.Char_ord" "HOL-Library.List_Lexorder"
begin

text \<open>
  The offline layer of PS Consult: the Dexie database of the client with its queue of
  offline consults and its caches of server records, the sync engine that drains the
  queue, and the strategies of the service worker. Each asynchronous function is
  modelled by what it has done when its promise settles; one call runs without another
  task of the page stepping in between. What a function reads from outside (the
  clock, the random source, the network) is an argument of its model. IndexedDB and
  the Cache API are taken to work: no quota or transaction error is modelled.
\<close>

section \<open>The offline database (db/offlineDb)\<close>

text \<open>
  The Dexie database \<open>PSConsultDB\<close> declares the object store
  \<^verbatim>\<open>offlineConsults: '++id, clientId, status, createdAt'\<close>: an auto-incremented primary
  key \<open>id\<close> and secondary indexes on \<open>clientId\<close>, \<open>status\<close> and \<open>createdAt\<close>.
  An object store is modelled as the list of its rows in ascending primary-key order
  (the order in which IndexedDB keeps them), together with the key generator of
  \<open>++id\<close>, which starts at 1 and is never wound back by a deletion.

  The field \<open>status\<close> holds one of the three strings the source writes
  (\<^verbatim>\<open>'pending' | 'synced' | 'failed'\<close>). The field \<open>createdAt\<close> holds
  \<^verbatim>\<open>new Date().toISOString()\<close>; the fixed-width ISO-8601 rendering orders like the clock
  reading it renders (years 0000 to 9999), so the model keeps the clock reading itself,
  in milliseconds since the epoch, and compares readings where the source compares the
  strings. A consult payload is a JavaScript object with string keys, modelled as an
  association list.
\<close>

datatype sync_status = Pending | Synced | Failed

type_synonym payload = "(string \<times> string) list"

record offline_entry =
  entry_id :: nat
  clientId :: string
  data :: payload
  status :: sync_status
  createdAt :: int
  attempts :: nat

text \<open>
  The object store \<^verbatim>\<open>cachedConsults: 'id, consultId, ward, urgency, status, createdAt'\<close>
  has the server's \<open>id\<close> as its (inbound, not generated) primary key. A consult as the
  server sends it carries the fields the cache copies; \<open>created_at\<close> is a string that
  may be absent (the pages guard it with \<^verbatim>\<open>c.created_at ? ... : ''\<close>), the remaining
  fields are kept in \<open>c_rest\<close>.
\<close>

record consult =
  c_id :: int
  c_consult_id :: string
  c_ward :: string
  c_urgency :: string
  c_status :: string
  c_created_at :: "string option"
  c_rest :: payload

record cached_entry =
  k_id :: int
  k_consultId :: string
  k_ward :: string
  k_urgency :: string
  k_status :: string
  k_createdAt :: "string option"
  k_data :: consult

text \<open>
  The object store \<^verbatim>\<open>cachedSchedule: 'id, serviceType, dayOfWeek'\<close>, likewise keyed by the
  server's \<open>id\<close>.
\<close>

record schedule =
  s_id :: int
  s_service_type :: string
  s_day_of_week :: string
  s_rest :: payload

record cached_schedule =
  h_id :: int
  h_serviceType :: string
  h_dayOfWeek :: string
  h_data :: schedule

text \<open>The database; the store \<open>syncLog\<close> is declared by the source and never used.\<close>

record offline_db =
  offlineConsults :: "offline_entry list"
  offlineConsults_nextId :: nat
  cachedConsults :: "cached_entry list"
  cachedSchedule :: "cached_schedule list"

definition empty_db :: offline_db where
  "empty_db =
     \<lparr>offlineConsults = [], offlineConsults_nextId = 1, cachedConsults = [],
      cachedSchedule = []\<rparr>"

subsection \<open>Offline consult queue\<close>

text \<open>A number as a template literal renders it: its decimal digits.\<close>

definition digit_char :: "nat \<Rightarrow> char" where
  "digit_char d = ''0123456789'' ! d"

fun number_string :: "nat \<Rightarrow> string" where
  "number_string n =
     (if n div 10 = 0 then [] else number_string (n div 10)) @ [digit_char (n mod 10)]"

text \<open>
  What \<open>saveOfflineConsult\<close> reads from its environment: \<^verbatim>\<open>Date.now()\<close> for the client
  id, the seven characters \<^verbatim>\<open>Math.random().toString(36).slice(2, 9)\<close>, and the clock
  again for \<open>createdAt\<close>.
\<close>

record save_env =
  date_now :: nat
  random_suffix :: string
  created_now :: int

text \<open>
  \<^verbatim>\<open>{ ...consultData, client_id: clientId }\<close>: an existing key keeps its place and takes
  the new value, a new key is appended.
\<close>

fun set_field :: "string \<Rightarrow> string \<Rightarrow> payload \<Rightarrow> payload" where
  "set_field k v [] = [(k, v)]"
| "set_field k v ((k', v') # kvs) =
     (if k' = k then (k, v) # kvs else (k', v') # set_field k v kvs)"

definition saveOfflineConsult ::
  "save_env \<Rightarrow> payload \<Rightarrow> offline_db \<Rightarrow> (nat \<times> string) \<times> offline_db" where
  "saveOfflineConsult env consultData db =
     (let clientId = ''offline-'' @ number_string (date_now env) @ ''-'' @ random_suffix env;
          new_id = offlineConsults_nextId db;
          entry = \<lparr>entry_id = new_id,
                   clientId = clientId,
                   data = set_field ''client_id'' clientId consultData,
                   status = Pending,
                   createdAt = created_now env,
                   attempts = 0\<rparr>
      in ((new_id, clientId),
          db\<lparr>offlineConsults := offlineConsults db @ [entry],
             offlineConsults_nextId := Suc new_id\<rparr>))"

text \<open>
  \<^verbatim>\<open>where('status').equals('pending').toArray()\<close>: the rows whose index key is
  \<open>'pending'\<close>; rows with the same index key come in primary-key order.
\<close>

definition getPendingConsults :: "offline_db \<Rightarrow> offline_entry list" where
  "getPendingConsults db = filter (\<lambda>e. status e = Pending) (offlineConsults db)"

text \<open>
  \<^verbatim>\<open>update(id, { status: 'synced' })\<close> changes the row with that key when there is one.
  The count the promise resolves to is not used by any caller.
\<close>

definition markConsultSynced :: "nat \<Rightarrow> offline_db \<Rightarrow> offline_db" where
  "markConsultSynced i db =
     db\<lparr>offlineConsults :=
          map (\<lambda>e. if entry_id e = i then e\<lparr>status := Synced\<rparr> else e) (offlineConsults db)\<rparr>"

definition markConsultFailed :: "nat \<Rightarrow> offline_db \<Rightarrow> offline_db" where
  "markConsultFailed i db =
     (case find (\<lambda>e. entry_id e = i) (offlineConsults db) of
        None \<Rightarrow> db
      | Some entry \<Rightarrow>
          db\<lparr>offlineConsults :=
               map (\<lambda>e. if entry_id e = i
                         then e\<lparr>status := Failed, attempts := attempts entry + 1\<rparr>
                         else e)
                   (offlineConsults db)\<rparr>)"

definition retention_ms :: int where
  "retention_ms = 7 * 24 * 60 * 60 * 1000"

text \<open>\<open>now\<close> is the reading of \<^verbatim>\<open>Date.now()\<close> when the sweep runs.\<close>

definition cleanupSyncedConsults :: "int \<Rightarrow> offline_db \<Rightarrow> offline_db" where
  "cleanupSyncedConsults now db =
     (let cutoff = now - retention_ms
      in db\<lparr>offlineConsults :=
              filter (\<lambda>entry. \<not> (status entry = Synced \<and> createdAt entry < cutoff))
                     (offlineConsults db)\<rparr>)"

subsection \<open>Sync engine\<close>

text \<open>
  The transmit function \<open>syncFn\<close> is supplied by the caller. It acts on the world
  outside the database (network, server), of some type \<open>'w\<close>, and either resolves
  (\<open>Inr ()\<close>) or throws (\<open>Inl err\<close>). The loop body is the \<^verbatim>\<open>try\<close>/\<^verbatim>\<open>catch\<close> of the
  source; the store operations themselves are taken not to fail.
\<close>

type_synonym ('w, 'e) sync_fn = "'w \<Rightarrow> payload \<Rightarrow> ('e + unit) \<times> 'w"

record sync_result =
  synced :: nat
  failed :: nat

fun sync_loop ::
  "('w, 'e) sync_fn \<Rightarrow> offline_entry list \<Rightarrow> offline_db \<times> 'w \<times> nat \<times> nat
     \<Rightarrow> offline_db \<times> 'w \<times> nat \<times> nat" where
  "sync_loop syncFn [] st = st"
| "sync_loop syncFn (entry # rest) (db, w, n_synced, n_failed) =
     (case syncFn w (data entry) of
        (Inr u, w') \<Rightarrow>
          sync_loop syncFn rest (markConsultSynced (entry_id entry) db, w', n_synced + 1, n_failed)
      | (Inl err, w') \<Rightarrow>
          sync_loop syncFn rest (markConsultFailed (entry_id entry) db, w', n_synced, n_failed + 1))"

definition syncAllPending ::
  "('w, 'e) sync_fn \<Rightarrow> int \<Rightarrow> offline_db \<Rightarrow> 'w \<Rightarrow> sync_result \<times> offline_db \<times> 'w" where
  "syncAllPending syncFn now db w =
     (let pending = getPendingConsults db in
      case sync_loop syncFn pending (db, w, 0, 0) of
        (db1, w1, n_synced, n_failed) \<Rightarrow>
          (\<lparr>synced = n_synced, failed = n_failed\<rparr>, cleanupSyncedConsults now db1, w1))"

text \<open>
  What the transmit function answers along a pass over \<open>es\<close>, and the world it leaves:
  the call for each entry starts in the world the previous call left.
\<close>

fun transmissions :: "('w, 'e) sync_fn \<Rightarrow> 'w \<Rightarrow> offline_entry list \<Rightarrow> ('e + unit) list \<times> 'w" where
  "transmissions syncFn w [] = ([], w)"
| "transmissions syncFn w (entry # rest) =
     (case syncFn w (data entry) of
        (r, w') \<Rightarrow> (case transmissions syncFn w' rest of (rs, w'') \<Rightarrow> (r # rs, w'')))"

text \<open>
  A transmit function that also keeps, beside its world, the list of the payloads it
  has been called with.
\<close>

definition logging :: "('w, 'e) sync_fn \<Rightarrow> ('w \<times> payload list, 'e) sync_fn" where
  "logging syncFn = (\<lambda>(w, log) d. case syncFn w d of (r, w') \<Rightarrow> (r, (w', log @ [d])))"

text \<open>
  What one turn of the loop does to a row, given the row's key is the key of the entry
  transmitted and \<open>out\<close> is what the transmission answered; and what a sequence of
  turns (key of the entry, answer) does to a row.
\<close>

definition row_after :: "'e + unit \<Rightarrow> offline_entry \<Rightarrow> offline_entry" where
  "row_after out r =
     (case out of
        Inl err \<Rightarrow> r\<lparr>status := Failed, attempts := attempts r + 1\<rparr>
      | Inr u \<Rightarrow> r\<lparr>status := Synced\<rparr>)"

fun row_after_turns :: "(nat \<times> ('e + unit)) list \<Rightarrow> offline_entry \<Rightarrow> offline_entry" where
  "row_after_turns [] r = r"
| "row_after_turns ((i, out) # turns) r =
     row_after_turns turns (if entry_id r = i then row_after out r else r)"

text \<open>
  The store invariant of \<open>offlineConsults\<close>: primary keys ascend strictly, are
  positive and lie below the key generator.
\<close>

definition wf_db :: "offline_db \<Rightarrow> bool" where
  "wf_db db \<longleftrightarrow>
     sorted_wrt (<) (map entry_id (offlineConsults db)) \<and>
     0 < offlineConsults_nextId db \<and>
     list_all (\<lambda>e. 0 < entry_id e \<and> entry_id e < offlineConsults_nextId db) (offlineConsults db)"

text \<open>
  Histories of the queue, for statements about "every sequence of operations": the
  operations that touch \<open>offlineConsults\<close>, run from the empty database. Beside the
  store a history counts the enqueues made and records the keys whose row has been
  set to \<open>'synced'\<close>.
\<close>

datatype store_op =
    Enqueue save_env payload
  | MarkSynced nat
  | MarkFailed nat
  | Cleanup int

record history =
  store :: offline_db
  enqueues :: nat
  reached_synced :: "nat set"

fun apply_op :: "store_op \<Rightarrow> history \<Rightarrow> history" where
  "apply_op (Enqueue env consultData) h =
     h\<lparr>store := snd (saveOfflineConsult env consultData (store h)),
       enqueues := enqueues h + 1\<rparr>"
| "apply_op (MarkSynced i) h =
     h\<lparr>store := markConsultSynced i (store h),
       reached_synced :=
         (if i \<in> set (map entry_id (offlineConsults (store h)))
          then insert i (reached_synced h) else reached_synced h)\<rparr>"
| "apply_op (MarkFailed i) h = h\<lparr>store := markConsultFailed i (store h)\<rparr>"
| "apply_op (Cleanup now) h = h\<lparr>store := cleanupSyncedConsults now (store h)\<rparr>"

definition run_ops :: "store_op list \<Rightarrow> history" where
  "run_ops ops = fold apply_op ops \<lparr>store = empty_db, enqueues = 0, reached_synced = {}\<rparr>"


subsection \<open>Cache helpers\<close>

definition to_cached :: "consult \<Rightarrow> cached_entry" where
  "to_cached c =
     \<lparr>k_id = c_id c,
      k_consultId = c_consult_id c,
      k_ward = c_ward c,
      k_urgency = c_urgency c,
      k_status = c_status c,
      k_createdAt = c_created_at c,
      k_data = c\<rparr>"

text \<open>
  \<open>put\<close> on a store whose rows carry their key (\<open>key\<close> reads it): the row goes to
  its place in key order, and a row with the same key is replaced. \<open>bulkPut\<close> puts the
  rows one after the other.
\<close>

fun table_put :: "('r \<Rightarrow> int) \<Rightarrow> 'r \<Rightarrow> 'r list \<Rightarrow> 'r list" where
  "table_put key r [] = [r]"
| "table_put key r (x # xs) =
     (if key r < key x then r # x # xs
      else if key r = key x then r # xs
      else x # table_put key r xs)"

definition bulkPut :: "('r \<Rightarrow> int) \<Rightarrow> 'r list \<Rightarrow> 'r list \<Rightarrow> 'r list" where
  "bulkPut key rs tbl = fold (table_put key) rs tbl"

definition cacheConsults :: "consult list \<Rightarrow> offline_db \<Rightarrow> offline_db" where
  "cacheConsults consults db =
     (let cleared = db\<lparr>cachedConsults := []\<rparr>
      in if length consults > 0
         then cleared\<lparr>cachedConsults :=
                        bulkPut k_id (map to_cached consults) (cachedConsults cleared)\<rparr>
         else cleared)"

text \<open>
  The index on \<open>createdAt\<close> holds the rows that have a key there, ordered by that key
  and, among equal keys, by primary key; a row without \<open>createdAt\<close> is not in the
  index. Strings compare lexicographically. \<open>sort_key\<close> is stable, and the rows come
  in primary-key order.
\<close>

definition index_createdAt :: "cached_entry list \<Rightarrow> cached_entry list" where
  "index_createdAt tbl =
     map snd (sort_key fst
       (List.map_filter (\<lambda>e. map_option (\<lambda>k. (k, e)) (k_createdAt e)) tbl))"

text \<open>\<^verbatim>\<open>orderBy('createdAt').reverse().toArray()\<close>, then \<^verbatim>\<open>entries.map((e) => e.data)\<close>.\<close>

definition getCachedConsults :: "offline_db \<Rightarrow> consult list" where
  "getCachedConsults db = map k_data (rev (index_createdAt (cachedConsults db)))"

definition to_cached_schedule :: "schedule \<Rightarrow> cached_schedule" where
  "to_cached_schedule s =
     \<lparr>h_id = s_id s,
      h_serviceType = s_service_type s,
      h_dayOfWeek = s_day_of_week s,
      h_data = s\<rparr>"

definition cacheSchedule :: "schedule list \<Rightarrow> offline_db \<Rightarrow> offline_db" where
  "cacheSchedule schedules db =
     (let cleared = db\<lparr>cachedSchedule := []\<rparr>
      in if length schedules > 0
         then cleared\<lparr>cachedSchedule :=
                        bulkPut h_id (map to_cached_schedule schedules) (cachedSchedule cleared)\<rparr>
         else cleared)"

text \<open>\<^verbatim>\<open>toArray()\<close> on the table gives the rows in primary-key order.\<close>

definition getCachedSchedule :: "offline_db \<Rightarrow> schedule list" where
  "getCachedSchedule db = map h_data (cachedSchedule db)"

text \<open>
  A list of consults is newest first when every consult has a \<open>created_at\<close> and none
  is followed by one with a greater \<open>created_at\<close>.
\<close>

definition newest_first :: "consult list \<Rightarrow> bool" where
  "newest_first cs \<longleftrightarrow>
     list_all (\<lambda>c. c_created_at c \<noteq> None) cs \<and>
     sorted (rev (List.map_filter c_created_at cs))"

section \<open>The service worker\<close>

definition CACHE_VERSION :: string where
  "CACHE_VERSION = ''v6''"

definition STATIC_CACHE :: string where
  "STATIC_CACHE = ''ps-consult-static-'' @ CACHE_VERSION"

definition API_CACHE :: string where
  "API_CACHE = ''ps-consult-api-'' @ CACHE_VERSION"

definition IMAGE_CACHE :: string where
  "IMAGE_CACHE = ''ps-consult-images-'' @ CACHE_VERSION"

text \<open>
  The three names as the templates of the source compute them for a version tag \<open>v\<close>;
  used to speak of the namespaces of another build.
\<close>

definition cache_names_of_version :: "string \<Rightarrow> string list" where
  "cache_names_of_version v =
     [''ps-consult-static-'' @ v, ''ps-consult-api-'' @ v, ''ps-consult-images-'' @ v]"


record response =
  resp_status :: nat
  resp_statusText :: string
  resp_headers :: "(string \<times> string) list"
  resp_body :: string


text \<open>
  \<open>CacheStorage\<close>: the named caches in the order of their creation (the order of
  \<^verbatim>\<open>caches.keys()\<close>, and the order in which \<^verbatim>\<open>caches.match\<close> searches them). A cache
  maps the URL of a GET request to the stored response.
\<close>

type_synonym cache = "string \<rightharpoonup> response"
type_synonym cache_storage = "(string \<times> cache) list"


definition caches_keys :: "cache_storage \<Rightarrow> string list" where
  "caches_keys cs = map fst cs"

text \<open>\<^verbatim>\<open>caches.open(name)\<close> creates the cache when there is none of that name.\<close>

definition caches_open :: "string \<Rightarrow> cache_storage \<Rightarrow> cache_storage" where
  "caches_open name cs = (if name \<in> set (caches_keys cs) then cs else cs @ [(name, Map.empty)])"


definition cache_match :: "string \<Rightarrow> string \<Rightarrow> cache_storage \<Rightarrow> response option" where
  "cache_match name url cs = (case map_of cs name of None \<Rightarrow> None | Some c \<Rightarrow> c url)"


definition caches_delete :: "string \<Rightarrow> cache_storage \<Rightarrow> cache_storage" where
  "caches_delete name cs = filter (\<lambda>(n, c). n \<noteq> name) cs"

subsection \<open>Activate\<close>

definition allowedCaches :: "string list" where
  "allowedCaches = [STATIC_CACHE, API_CACHE, IMAGE_CACHE]"

definition activate :: "cache_storage \<Rightarrow> cache_storage" where
  "activate cs =
     fold caches_delete (filter (\<lambda>k. k \<notin> set allowedCaches) (caches_keys cs)) cs"

subsection \<open>Strategies\<close>







subsection \<open>Fetch listener\<close>









section \<open>Sample data\<close>

text \<open>Concrete stores, clocks and transmit functions on which the results below are run.\<close>

definition sample_entry :: "nat \<Rightarrow> sync_status \<Rightarrow> int \<Rightarrow> nat \<Rightarrow> offline_entry" where
  "sample_entry i st t n =
     \<lparr>entry_id = i, clientId = ''offline-1-abc'', data = [(''patient'', ''A'')],
      status = st, createdAt = t, attempts = n\<rparr>"

definition sample_queue :: "offline_entry list \<Rightarrow> offline_db" where
  "sample_queue es =
     \<lparr>offlineConsults = es, offlineConsults_nextId = Suc (length es), cachedConsults = [],
      cachedSchedule = []\<rparr>"



text \<open>
  A transmit function whose world is the number of calls made so far and which throws
  on exactly its second call.
\<close>

definition second_call_throws :: "(nat, string) sync_fn" where
  "second_call_throws n d = (if n = 1 then Inl ''network error'' else Inr (), Suc n)"

definition always_throws :: "(nat, string) sync_fn" where
  "always_throws n d = (Inl ''network error'', Suc n)"

definition always_resolves :: "(nat, string) sync_fn" where
  "always_resolves n d = (Inr (), Suc n)"

definition three_pending :: offline_db where
  "three_pending =
     sample_queue
       [sample_entry 1 Pending 10 0, sample_entry 2 Pending 20 0, sample_entry 3 Pending 30 0]"

definition sample_env :: "int \<Rightarrow> save_env" where
  "sample_env t = \<lparr>date_now = 7, random_suffix = ''k3x9q2a'', created_now = t\<rparr>"

definition old_and_new_caches :: cache_storage where
  "old_and_new_caches =
     [(''ps-consult-static-v4'', Map.empty),
      (''ps-consult-api-v4'', Map.empty),
      (''ps-consult-static-v6'', Map.empty),
      (''workbox-precache'', Map.empty),
      (''ps-consult-images-v6'', Map.empty)]"

definition sample_consult :: "int \<Rightarrow> string \<Rightarrow> string option \<Rightarrow> consult" where
  "sample_consult i w t =
     \<lparr>c_id = i, c_consult_id = ''PSC-0001'', c_ward = w, c_urgency = ''routine'',
      c_status = ''pending'', c_created_at = t, c_rest = []\<rparr>"

definition sample_schedule :: "int \<Rightarrow> string \<Rightarrow> schedule" where
  "sample_schedule i d =
     \<lparr>s_id = i, s_service_type = ''clinic'', s_day_of_week = d, s_rest = []\<rparr>"








section \<open>Results\<close>

declare number_string.simps [simp del]

subsection \<open>The queue operations\<close>

text \<open>
  C7. \<open>markConsultSynced\<close> is idempotent: for every store state and every key, marking
  twice leaves the same store as marking once.
\<close>

theorem markConsultSynced_idempotent:
  "markConsultSynced i (markConsultSynced i db) = markConsultSynced i db"
  by (simp add: markConsultSynced_def)



subsection \<open>The sync engine\<close>

lemma length_transmissions: "length (fst (transmissions syncFn w es)) = length es"
proof (induction es arbitrary: w)
  case Nil
  then show ?case by simp
next
  case (Cons e es)
  obtain r w1 where f: "syncFn w (data e) = (r, w1)"
    by (cases "syncFn w (data e)")
  obtain rs w2 where t: "transmissions syncFn w1 es = (rs, w2)"
    by (cases "transmissions syncFn w1 es")
  from Cons.IH [of w1] t have "length rs = length es" by simp
  then show ?case using f t by simp
qed

lemma sync_loop_counters:
  "sync_loop syncFn es (db, w, s, fl) = (db', w', s', fl') \<Longrightarrow>
     s' = s + length (filter (\<lambda>r. \<not> isl r) (fst (transmissions syncFn w es))) \<and>
     fl' = fl + length (filter isl (fst (transmissions syncFn w es))) \<and>
     w' = snd (transmissions syncFn w es)"
proof (induction es arbitrary: db w s fl)
  case Nil
  then show ?case by simp
next
  case (Cons e es)
  obtain r w1 where f: "syncFn w (data e) = (r, w1)"
    by (cases "syncFn w (data e)")
  obtain rs w2 where t: "transmissions syncFn w1 es = (rs, w2)"
    by (cases "transmissions syncFn w1 es")
  show ?case
  proof (cases r)
    case (Inl err)
    with Cons.prems f
    have "sync_loop syncFn es (markConsultFailed (entry_id e) db, w1, s, fl + 1) = (db', w', s', fl')"
      by simp
    from Cons.IH [OF this] show ?thesis using f t Inl by simp
  next
    case (Inr u)
    with Cons.prems f
    have "sync_loop syncFn es (markConsultSynced (entry_id e) db, w1, s + 1, fl) = (db', w', s', fl')"
      by simp
    from Cons.IH [OF this] show ?thesis using f t Inr by simp
  qed
qed

lemma length_filter_partition:
  "length (filter (\<lambda>r. \<not> P r) xs) + length (filter P xs) = length xs"
  by (induction xs) auto

text \<open>
  C10. The counters of a pass partition the snapshot taken at its start: \<open>synced\<close> is the
  number of entries whose transmission resolved, \<open>failed\<close> the number of those whose
  transmission threw, and together they are the number of entries in the snapshot.
\<close>

theorem syncAllPending_counters_partition:
  "(case syncAllPending syncFn now db w of
      (res, db', w') \<Rightarrow>
        synced res + failed res = length (getPendingConsults db) \<and>
        synced res =
          length (filter (\<lambda>r. \<not> isl r) (fst (transmissions syncFn w (getPendingConsults db)))) \<and>
        failed res =
          length (filter isl (fst (transmissions syncFn w (getPendingConsults db)))))"
proof -
  obtain db1 w1 s fl
    where loop: "sync_loop syncFn (getPendingConsults db) (db, w, 0, 0) = (db1, w1, s, fl)"
    by (cases "sync_loop syncFn (getPendingConsults db) (db, w, 0, 0)")
  from sync_loop_counters [OF loop]
  have s: "s = length (filter (\<lambda>r. \<not> isl r) (fst (transmissions syncFn w (getPendingConsults db))))"
    and fl: "fl = length (filter isl (fst (transmissions syncFn w (getPendingConsults db))))"
    by simp_all
  have "s + fl = length (getPendingConsults db)"
    unfolding s fl length_filter_partition length_transmissions ..
  then show ?thesis
    using s fl by (simp add: syncAllPending_def Let_def loop)
qed

subsection \<open>Cache namespaces\<close>

lemma fold_caches_delete:
  "fold caches_delete ks cs = filter (\<lambda>(n, c). n \<notin> set ks) cs"
  by (induction ks arbitrary: cs) (auto simp: caches_delete_def intro: filter_cong)

lemma activate_filter: "activate cs = filter (\<lambda>(n, c). n \<in> set allowedCaches) cs"
  unfolding activate_def fold_caches_delete caches_keys_def
  by (rule filter_cong) (force+)

lemma allowedCaches_names:
  "allowedCaches = [''ps-consult-static-v6'', ''ps-consult-api-v6'', ''ps-consult-images-v6'']"
  by (simp add: allowedCaches_def STATIC_CACHE_def API_CACHE_def IMAGE_CACHE_def CACHE_VERSION_def)

text \<open>
  C9. After the activation sweep a cache namespace is present if and only if it was
  present before and its name is one of the three names of the current
  \<open>CACHE_VERSION\<close>; the caches that stay keep their contents and their order; no
  namespace named by the same templates for another version tag is left.
\<close>

theorem activate_keeps_current_version_only:
  "(\<forall>n. n \<in> set (caches_keys (activate cs)) \<longleftrightarrow>
         n \<in> set (caches_keys cs) \<and> n \<in> set (cache_names_of_version CACHE_VERSION))
   \<and> activate cs = filter (\<lambda>(n, c). n \<in> set (cache_names_of_version CACHE_VERSION)) cs
   \<and> cache_names_of_version CACHE_VERSION =
       [''ps-consult-static-v6'', ''ps-consult-api-v6'', ''ps-consult-images-v6'']
   \<and> (\<forall>v. v \<noteq> CACHE_VERSION \<longrightarrow>
         (\<forall>n \<in> set (cache_names_of_version v). n \<notin> set (caches_keys (activate cs))))"
proof -
  have names: "cache_names_of_version CACHE_VERSION = allowedCaches"
    by (simp add: allowedCaches_names cache_names_of_version_def CACHE_VERSION_def)
  have keys: "set (caches_keys (activate cs)) = set (caches_keys cs) \<inter> set allowedCaches"
    by (auto simp: activate_filter caches_keys_def)
  have other: "n \<notin> set allowedCaches"
    if "v \<noteq> CACHE_VERSION" and "n \<in> set (cache_names_of_version v)" for v n
    using that by (auto simp: allowedCaches_names cache_names_of_version_def CACHE_VERSION_def)
  show ?thesis
    using keys other by (auto simp: names activate_filter allowedCaches_names)
qed

theorem activate_keeps_current_version_only_witness:
  "''v4'' \<noteq> CACHE_VERSION
   \<and> ''ps-consult-api-v4'' \<in> set (cache_names_of_version ''v4'')
   \<and> ''ps-consult-api-v4'' \<in> set (caches_keys old_and_new_caches)
   \<and> ''ps-consult-api-v4'' \<notin> set (caches_keys (activate old_and_new_caches))
   \<and> ''ps-consult-static-v6'' \<in> set (caches_keys old_and_new_caches)
   \<and> ''ps-consult-static-v6'' \<in> set (caches_keys (activate old_and_new_caches))"
proof -
  have v: "''v4'' \<noteq> CACHE_VERSION"
    by (simp add: CACHE_VERSION_def)
  have old: "''ps-consult-api-v4'' \<in> set (cache_names_of_version ''v4'')"
    by (simp add: cache_names_of_version_def)
  have new: "''ps-consult-static-v6'' \<in> set (caches_keys old_and_new_caches)
      \<and> ''ps-consult-static-v6'' \<in> set (cache_names_of_version CACHE_VERSION)"
    by (simp add: caches_keys_def old_and_new_caches_def cache_names_of_version_def
        CACHE_VERSION_def)
  have before: "''ps-consult-api-v4'' \<in> set (caches_keys old_and_new_caches)"
    by (simp add: caches_keys_def old_and_new_caches_def)
  from activate_keeps_current_version_only [of old_and_new_caches] v old new before
  show ?thesis by blast
qed

subsection \<open>What a pass does to the rows\<close>

lemma distinct_ids_eq:
  "distinct (map entry_id xs) \<Longrightarrow> x \<in> set xs \<Longrightarrow> y \<in> set xs \<Longrightarrow> entry_id x = entry_id y \<Longrightarrow> x = y"
  by (meson distinct_map inj_onD)

lemma markConsultFailed_rows:
  assumes "distinct (map entry_id (offlineConsults db))"
  shows "offlineConsults (markConsultFailed i db) =
           map (\<lambda>e. if entry_id e = i then e\<lparr>status := Failed, attempts := attempts e + 1\<rparr> else e)
               (offlineConsults db)"
proof (cases "find (\<lambda>e. entry_id e = i) (offlineConsults db)")
  case None
  then have "\<forall>e \<in> set (offlineConsults db). entry_id e \<noteq> i"
    by (simp add: find_None_iff)
  then have "map (\<lambda>e. if entry_id e = i then e\<lparr>status := Failed, attempts := attempts e + 1\<rparr> else e)
      (offlineConsults db) = offlineConsults db"
    by (simp add: map_idI)
  with None show ?thesis by (simp add: markConsultFailed_def)
next
  case (Some entry)
  then have mem: "entry \<in> set (offlineConsults db)" and key: "entry_id entry = i"
    by (auto simp: find_Some_iff)
  have "attempts entry = attempts e" if "e \<in> set (offlineConsults db)" "entry_id e = i" for e
    using distinct_ids_eq [OF assms mem that(1)] key that(2) by simp
  then show ?thesis
    using Some by (simp add: markConsultFailed_def)
qed

lemma entry_id_row_after [simp]: "entry_id (row_after out r) = entry_id r"
  by (simp add: row_after_def split: sum.split)

lemma entry_id_row_after_turns [simp]: "entry_id (row_after_turns ts r) = entry_id r"
  by (induction ts r rule: row_after_turns.induct) auto

lemma sync_loop_rows:
  assumes "distinct (map entry_id (offlineConsults db))"
    and "sync_loop syncFn es (db, w, s, fl) = (db', w', s', fl')"
  shows "offlineConsults db' =
           map (row_after_turns (zip (map entry_id es) (fst (transmissions syncFn w es))))
               (offlineConsults db)"
  using assms
proof (induction es arbitrary: db w s fl)
  case Nil
  then show ?case by simp
next
  case (Cons e es)
  obtain r w1 where f: "syncFn w (data e) = (r, w1)"
    by (cases "syncFn w (data e)")
  obtain rs w2 where t: "transmissions syncFn w1 es = (rs, w2)"
    by (cases "transmissions syncFn w1 es")
  define db1 where "db1 = (case r of Inl err \<Rightarrow> markConsultFailed (entry_id e) db | Inr u \<Rightarrow> markConsultSynced (entry_id e) db)"
  have rows1: "offlineConsults db1 = map (\<lambda>x. if entry_id x = entry_id e then row_after r x else x) (offlineConsults db)"
    unfolding db1_def
    by (cases r) (simp_all add: markConsultFailed_rows [OF Cons.prems(1)] markConsultSynced_def row_after_def)
  have d1: "distinct (map entry_id (offlineConsults db1))"
    using Cons.prems(1) by (simp add: rows1 comp_def if_distrib [of entry_id] cong: if_cong)
  have "\<exists>s1 fl1. sync_loop syncFn es (db1, w1, s1, fl1) = (db', w', s', fl')"
    using Cons.prems(2) f unfolding db1_def by (cases r) auto
  then obtain s1 fl1 where "sync_loop syncFn es (db1, w1, s1, fl1) = (db', w', s', fl')"
    by blast
  from Cons.IH [OF d1 this]
  show ?case
    using f t by (simp add: rows1 comp_def)
qed


lemma row_after_turns_other:
  "entry_id r \<notin> fst ` set ts \<Longrightarrow> row_after_turns ts r = r"
  by (induction ts r rule: row_after_turns.induct) auto

lemma row_after_turns_hit:
  "distinct (map fst ts) \<Longrightarrow> (entry_id r, out) \<in> set ts \<Longrightarrow> row_after_turns ts r = row_after out r"
proof (induction ts r rule: row_after_turns.induct)
  case (1 r)
  then show ?case by simp
next
  case (2 i out' turns r)
  show ?case
  proof (cases "entry_id r = i")
    case True
    with "2.prems" have "out' = out"
      by (auto simp: image_iff)
    moreover from True "2.prems" have "entry_id (row_after out' r) \<notin> fst ` set turns"
      by simp
    ultimately show ?thesis
      using True by (simp add: row_after_turns_other)
  next
    case False
    with "2.prems" "2.IH" show ?thesis by auto
  qed
qed

lemma wf_db_distinct: "wf_db db \<Longrightarrow> distinct (map entry_id (offlineConsults db))"
  by (simp add: wf_db_def strict_sorted_iff)

lemma status_row_after: "status (row_after out r) \<noteq> Pending"
  by (simp add: row_after_def split: sum.split)

lemma zip_turn_mem:
  "j < length es \<Longrightarrow> length outs = length es \<Longrightarrow>
     (entry_id (es ! j), outs ! j) \<in> set (zip (map entry_id es) outs)"
  by (metis (no_types, lifting) in_set_zip length_map nth_map fst_conv snd_conv)

lemma wf_db_ids:
  "wf_db db \<longleftrightarrow>
     sorted_wrt (<) (map entry_id (offlineConsults db)) \<and>
     0 < offlineConsults_nextId db \<and>
     (\<forall>i \<in> set (map entry_id (offlineConsults db)). 0 < i \<and> i < offlineConsults_nextId db)"
  by (auto simp: wf_db_def list_all_iff)

lemma wf_db_cleanup: "wf_db db \<Longrightarrow> wf_db (cleanupSyncedConsults now db)"
  by (auto simp: wf_db_def cleanupSyncedConsults_def Let_def sorted_wrt_map sorted_wrt_filter
      list_all_iff)

lemma nextId_markConsultFailed [simp]:
  "offlineConsults_nextId (markConsultFailed i db) = offlineConsults_nextId db"
  by (simp add: markConsultFailed_def split: option.split)

lemma nextId_markConsultSynced [simp]:
  "offlineConsults_nextId (markConsultSynced i db) = offlineConsults_nextId db"
  by (simp add: markConsultSynced_def)

lemma sync_loop_nextId:
  "sync_loop syncFn es (db, w, s, fl) = (db', w', s', fl') \<Longrightarrow>
     offlineConsults_nextId db' = offlineConsults_nextId db"
proof (induction es arbitrary: db w s fl)
  case Nil
  then show ?case by simp
next
  case (Cons e es)
  obtain r w1 where f: "syncFn w (data e) = (r, w1)"
    by (cases "syncFn w (data e)")
  show ?case
  proof (cases r)
    case (Inl err)
    with Cons.prems f
    have "sync_loop syncFn es (markConsultFailed (entry_id e) db, w1, s, fl + 1) = (db', w', s', fl')"
      by simp
    from Cons.IH [OF this] show ?thesis by simp
  next
    case (Inr u)
    with Cons.prems f
    have "sync_loop syncFn es (markConsultSynced (entry_id e) db, w1, s + 1, fl) = (db', w', s', fl')"
      by simp
    from Cons.IH [OF this] show ?thesis by simp
  qed
qed

lemma transmissions_logging:
  "snd (snd (transmissions (logging syncFn) (w, log) es)) = log @ map data es"
proof (induction es arbitrary: w log)
  case Nil
  then show ?case by simp
next
  case (Cons e es)
  obtain r w1 where f: "syncFn w (data e) = (r, w1)"
    by (cases "syncFn w (data e)")
  obtain rs w2 where t: "transmissions (logging syncFn) (w1, log @ [data e]) es = (rs, w2)"
    by (cases "transmissions (logging syncFn) (w1, log @ [data e]) es")
  from Cons.IH [of w1 "log @ [data e]"] t have "snd w2 = log @ data e # map data es"
    by simp
  then show ?case
    using f t by (simp add: logging_def)
qed

lemma syncAllPending_world:
  "snd (snd (syncAllPending syncFn now db w)) = snd (transmissions syncFn w (getPendingConsults db))"
proof -
  obtain db1 w1 s fl
    where loop: "sync_loop syncFn (getPendingConsults db) (db, w, 0, 0) = (db1, w1, s, fl)"
    by (cases "sync_loop syncFn (getPendingConsults db) (db, w, 0, 0)")
  from sync_loop_counters [OF loop] show ?thesis
    by (simp add: syncAllPending_def Let_def loop)
qed

text \<open>
  C1. A pass attempts every entry of its snapshot, whatever the earlier transmissions
  answered: the payloads the transmit function is called with are those of the
  snapshot, each once and in order, and the world the pass leaves is the world after
  all these calls. An entry whose transmission threw is in the store afterwards with
  status \<open>'failed'\<close> and one more attempt, and the pass went on: the counters count
  the resolved and the thrown transmissions of the whole snapshot, and no row of the
  store is \<open>'pending'\<close> after the pass. When the snapshot has three entries and only
  the second transmission throws, the pass returns \<open>{synced: 2, failed: 1}\<close> and no
  row is left \<open>'pending'\<close> with \<open>attempts\<close> 0.
\<close>

theorem syncAllPending_partial_failure:
  assumes wf: "wf_db db"
  shows "(case syncAllPending syncFn now db w of
      (res, db', w') \<Rightarrow>
        (let pending = getPendingConsults db;
             outs = fst (transmissions syncFn w pending)
         in length outs = length pending
          \<and> snd (snd (snd (syncAllPending (logging syncFn) now db (w, [])))) = map data pending
          \<and> w' = snd (transmissions syncFn w pending)
          \<and> (\<forall>j < length pending. isl (outs ! j) \<longrightarrow>
                (pending ! j)\<lparr>status := Failed, attempts := attempts (pending ! j) + 1\<rparr>
                  \<in> set (offlineConsults db'))
          \<and> synced res = length (filter (\<lambda>r. \<not> isl r) outs)
          \<and> failed res = length (filter isl outs)
          \<and> wf_db db'
          \<and> getPendingConsults db' = []
          \<and> (\<forall>x. outs = [Inr (), Inl x, Inr ()] \<longrightarrow>
                synced res = 2 \<and> failed res = 1 \<and>
                (\<forall>r \<in> set (offlineConsults db'). \<not> (status r = Pending \<and> attempts r = 0)))))"
proof -
  define pending where "pending = getPendingConsults db"
  define outs where "outs = fst (transmissions syncFn w pending)"
  define turns where "turns = zip (map entry_id pending) outs"
  obtain db1 w1 s fl
    where loop: "sync_loop syncFn pending (db, w, 0, 0) = (db1, w1, s, fl)"
    by (cases "sync_loop syncFn pending (db, w, 0, 0)")
  define db' where "db' = cleanupSyncedConsults now db1"
  have res: "syncAllPending syncFn now db w = (\<lparr>synced = s, failed = fl\<rparr>, db', w1)"
    by (simp add: syncAllPending_def Let_def loop pending_def [symmetric] db'_def)
  have len: "length outs = length pending"
    by (simp add: outs_def length_transmissions)
  from sync_loop_counters [OF loop]
  have s: "s = length (filter (\<lambda>r. \<not> isl r) outs)"
    and fl: "fl = length (filter isl outs)"
    and w1: "w1 = snd (transmissions syncFn w pending)"
    by (simp_all add: outs_def)
  have dist: "distinct (map entry_id (offlineConsults db))"
    using wf by (rule wf_db_distinct)
  have rows1: "offlineConsults db1 = map (row_after_turns turns) (offlineConsults db)"
    unfolding turns_def outs_def by (rule sync_loop_rows [OF dist loop])
  have next1: "offlineConsults_nextId db1 = offlineConsults_nextId db"
    by (rule sync_loop_nextId [OF loop])
  have dist_pending: "distinct (map fst turns)"
    using dist len by (simp add: turns_def pending_def getPendingConsults_def distinct_map_filter)
  have pending_rows: "set pending \<subseteq> set (offlineConsults db)"
    by (auto simp: pending_def getPendingConsults_def)
  have hit: "row_after_turns turns (pending ! j) = row_after (outs ! j) (pending ! j)"
    if "j < length pending" for j
    using row_after_turns_hit [OF dist_pending, of "pending ! j" "outs ! j"]
      zip_turn_mem [OF that len] by (simp add: turns_def)
  have no_pending1: "status r' \<noteq> Pending" if "r' \<in> set (offlineConsults db1)" for r'
  proof -
    from that rows1 obtain r where r: "r \<in> set (offlineConsults db)" and r': "r' = row_after_turns turns r"
      by auto
    show ?thesis
    proof (cases "status r = Pending")
      case True
      with r have "r \<in> set pending"
        by (simp add: pending_def getPendingConsults_def)
      then obtain j where "j < length pending" "pending ! j = r"
        by (auto simp: in_set_conv_nth)
      with hit [of j] r' show ?thesis
        by (simp add: status_row_after)
    next
      case False
      have "entry_id r \<notin> fst ` set turns"
      proof
        assume "entry_id r \<in> fst ` set turns"
        then obtain e where e: "e \<in> set pending" "entry_id e = entry_id r"
          using len by (auto simp: turns_def dest!: set_zip_leftD)
        with pending_rows r dist have "e = r"
          by (auto intro: distinct_ids_eq)
        with e False show False
          by (simp add: pending_def getPendingConsults_def)
      qed
      with r' False show ?thesis
        by (simp add: row_after_turns_other)
    qed
  qed
  have rows': "offlineConsults db' =
      filter (\<lambda>e. \<not> (status e = Synced \<and> createdAt e < now - retention_ms)) (offlineConsults db1)"
    by (simp add: db'_def cleanupSyncedConsults_def Let_def)
  have no_pending: "status r \<noteq> Pending" if "r \<in> set (offlineConsults db')" for r
    using that no_pending1 by (simp add: rows')
  then have empty: "getPendingConsults db' = []"
    by (simp add: getPendingConsults_def filter_empty_conv)
  have failed_rows: "(pending ! j)\<lparr>status := Failed, attempts := attempts (pending ! j) + 1\<rparr>
      \<in> set (offlineConsults db')" if j: "j < length pending" and thrown: "isl (outs ! j)" for j
  proof -
    from thrown obtain err where "outs ! j = Inl err"
      by (cases "outs ! j") auto
    with hit [OF j]
    have "row_after_turns turns (pending ! j) =
        (pending ! j)\<lparr>status := Failed, attempts := attempts (pending ! j) + 1\<rparr>"
      by (simp add: row_after_def)
    moreover have "pending ! j \<in> set (offlineConsults db)"
      using j pending_rows by auto
    ultimately have "(pending ! j)\<lparr>status := Failed, attempts := attempts (pending ! j) + 1\<rparr>
        \<in> set (offlineConsults db1)"
      by (force simp: rows1)
    then show ?thesis
      by (simp add: rows')
  qed
  have ids1: "map entry_id (offlineConsults db1) = map entry_id (offlineConsults db)"
    by (simp add: rows1 comp_def)
  have "wf_db db1"
    using wf by (simp add: wf_db_ids ids1 next1)
  then have wf': "wf_db db'"
    unfolding db'_def by (rule wf_db_cleanup)
  have three: "s = 2 \<and> fl = 1" if "outs = [Inr (), Inl x, Inr ()]" for x
    using that by (simp add: s fl)
  have calls: "snd (snd (snd (syncAllPending (logging syncFn) now db (w, [])))) = map data pending"
    by (simp add: syncAllPending_world transmissions_logging pending_def)
  show ?thesis
    unfolding res
    using len calls w1 failed_rows s fl wf' empty three no_pending
    by (auto simp add: Let_def pending_def [symmetric] outs_def [symmetric])
qed


lemma rows_three_pending:
  "offlineConsults three_pending =
     [sample_entry 1 Pending 10 0, sample_entry 2 Pending 20 0, sample_entry 3 Pending 30 0]"
  by (simp add: three_pending_def sample_queue_def)

theorem syncAllPending_partial_failure_witness:
  "wf_db three_pending
   \<and> fst (transmissions second_call_throws 0 (getPendingConsults three_pending))
       = [Inr (), Inl ''network error'', Inr ()]
   \<and> (case syncAllPending second_call_throws 100 three_pending 0 of
        (res, db', w') \<Rightarrow>
          synced res = 2 \<and> failed res = 1 \<and> w' = 3 \<and> getPendingConsults db' = [] \<and>
          sample_entry 2 Failed 20 1 \<in> set (offlineConsults db'))"
proof -
  have wf: "wf_db three_pending"
    by (simp add: wf_db_def rows_three_pending sample_entry_def three_pending_def sample_queue_def)
  have pending: "getPendingConsults three_pending =
      [sample_entry 1 Pending 10 0, sample_entry 2 Pending 20 0, sample_entry 3 Pending 30 0]"
    by (simp add: getPendingConsults_def rows_three_pending sample_entry_def)
  have outs: "transmissions second_call_throws 0 (getPendingConsults three_pending)
      = ([Inr (), Inl ''network error'', Inr ()], 3)"
    by (simp add: pending second_call_throws_def numeral_3_eq_3)
  obtain res db' w'
    where run: "syncAllPending second_call_throws 100 three_pending 0 = (res, db', w')"
    by (cases "syncAllPending second_call_throws 100 three_pending 0")
  note t = syncAllPending_partial_failure
    [OF wf, where syncFn = second_call_throws and now = 100 and w = 0,
     unfolded run Let_def prod.case outs fst_conv snd_conv]
  from t have thrown: "(getPendingConsults three_pending ! j)
        \<lparr>status := Failed, attempts := attempts (getPendingConsults three_pending ! j) + 1\<rparr>
      \<in> set (offlineConsults db')"
    if "j < length (getPendingConsults three_pending)"
      and "isl ([Inr (), Inl ''network error'', Inr ()] ! j)" for j
    using that by blast
  from thrown [of 1] have row: "sample_entry 2 Failed 20 1 \<in> set (offlineConsults db')"
    by (simp add: pending sample_entry_def)
  from t have "synced res = 2 \<and> failed res = 1 \<and> w' = 3 \<and> getPendingConsults db' = []"
    by blast
  with row show ?thesis
    using wf outs by (simp add: run)
qed

subsection \<open>Histories of the queue\<close>





lemma nextId_cleanup [simp]:
  "offlineConsults_nextId (cleanupSyncedConsults now db) = offlineConsults_nextId db"
  by (simp add: cleanupSyncedConsults_def Let_def)


lemma ids_markConsultSynced [simp]:
  "map entry_id (offlineConsults (markConsultSynced i db)) = map entry_id (offlineConsults db)"
  by (simp add: markConsultSynced_def comp_def if_distrib [of entry_id] cong: if_cong)

lemma ids_markConsultFailed [simp]:
  "map entry_id (offlineConsults (markConsultFailed i db)) = map entry_id (offlineConsults db)"
  by (simp add: markConsultFailed_def comp_def if_distrib [of entry_id] split: option.split cong: if_cong)












lemma ids_set_markConsultSynced [simp]:
  "entry_id ` set (offlineConsults (markConsultSynced i db)) = entry_id ` set (offlineConsults db)"
  using ids_markConsultSynced [of i db] by (metis set_map)

lemma ids_set_markConsultFailed [simp]:
  "entry_id ` set (offlineConsults (markConsultFailed i db)) = entry_id ` set (offlineConsults db)"
  using ids_markConsultFailed [of i db] by (metis set_map)





lemmas store_eval =
  run_ops_def empty_db_def saveOfflineConsult_def markConsultSynced_def markConsultFailed_def
  cleanupSyncedConsults_def getPendingConsults_def sample_env_def Let_def



text \<open>
  C2. The claim is that a row left \<open>'failed'\<close> by a pass is selected again by the next
  pass, like a \<open>'pending'\<close> one. Here the code is run: a pass whose transmission throws
  leaves the only row \<open>'failed'\<close> with one attempt; \<open>getPendingConsults\<close> then returns
  nothing, and the next pass, with a transmit function that would resolve, makes no
  transmission, counts nothing and leaves the row as it is.
\<close>

theorem failed_entry_is_not_retried:
  "(case syncAllPending always_throws 100 (sample_queue [sample_entry 1 Pending 10 0]) 0 of
      (res1, db1, w1) \<Rightarrow>
        res1 = \<lparr>synced = 0, failed = 1\<rparr>
        \<and> offlineConsults db1 = [sample_entry 1 Failed 10 1]
        \<and> getPendingConsults db1 = []
        \<and> syncAllPending always_resolves 200 db1 w1 = (\<lparr>synced = 0, failed = 0\<rparr>, db1, w1))"
  by (simp add: syncAllPending_def store_eval sample_queue_def sample_entry_def always_throws_def
      always_resolves_def retention_ms_def)

text \<open>
  The scenario of an offline submission: the first enqueue gets key 1 and a client id
  made of the clock reading and the random suffix, and is the one pending entry; a
  pass whose transmission resolves returns \<open>{synced: 1, failed: 0}\<close> and leaves
  nothing pending.
\<close>

lemma offline_submission_scenario:
  "fst (saveOfflineConsult (sample_env 10) [(''patient'', ''A'')] empty_db)
     = (1, ''offline-7-k3x9q2a'')
   \<and> map data (getPendingConsults
        (snd (saveOfflineConsult (sample_env 10) [(''patient'', ''A'')] empty_db)))
     = [[(''patient'', ''A''), (''client_id'', ''offline-7-k3x9q2a'')]]
   \<and> (case syncAllPending always_resolves 100
          (snd (saveOfflineConsult (sample_env 10) [(''patient'', ''A'')] empty_db)) 0 of
        (res, db', w') \<Rightarrow> res = \<lparr>synced = 1, failed = 0\<rparr> \<and> getPendingConsults db' = [])"
  by (simp add: syncAllPending_def store_eval always_resolves_def retention_ms_def
      number_string.simps digit_char_def)


subsection \<open>The server caches\<close>

lemma mset_table_put:
  "key r \<notin> key ` set tbl \<Longrightarrow> mset (table_put key r tbl) = add_mset r (mset tbl)"
  by (induction tbl) auto

lemma keys_table_put:
  "key ` set (table_put key r tbl) \<subseteq> insert (key r) (key ` set tbl)"
  by (induction tbl) auto

lemma sorted_table_put:
  "sorted_wrt (<) (map key tbl) \<Longrightarrow> sorted_wrt (<) (map key (table_put key r tbl))"
proof (induction tbl)
  case Nil
  then show ?case by simp
next
  case (Cons x xs)
  have "key x < k" if "k \<in> key ` set (table_put key r xs)" "key x < key r" for k
    using keys_table_put [of key r xs] that Cons.prems by auto
  with Cons show ?case
    by (auto simp: image_iff)
qed

lemma bulkPut_fresh:
  "distinct (map key rs) \<Longrightarrow> key ` set rs \<inter> key ` set tbl = {} \<Longrightarrow>
     mset (bulkPut key rs tbl) = mset rs + mset tbl"
proof (induction rs arbitrary: tbl)
  case Nil
  then show ?case by (simp add: bulkPut_def)
next
  case (Cons r rs)
  from Cons.prems have fresh: "key r \<notin> key ` set tbl"
    by auto
  have "key ` set rs \<inter> insert (key r) (key ` set tbl) = {}"
    using Cons.prems by auto
  with keys_table_put [of key r tbl]
  have "key ` set rs \<inter> key ` set (table_put key r tbl) = {}"
    by blast
  with Cons.IH [of "table_put key r tbl"] Cons.prems
  have "mset (bulkPut key rs (table_put key r tbl)) = mset rs + mset (table_put key r tbl)"
    by simp
  then show ?case
    by (simp add: bulkPut_def mset_table_put [OF fresh])
qed

lemma sorted_bulkPut:
  "sorted_wrt (<) (map key tbl) \<Longrightarrow> sorted_wrt (<) (map key (bulkPut key rs tbl))"
  unfolding bulkPut_def by (induction rs arbitrary: tbl) (simp_all add: sorted_table_put)

lemma cacheConsults_rows:
  "cachedConsults (cacheConsults cs db) = bulkPut k_id (map to_cached cs) []"
  by (cases cs) (simp_all add: cacheConsults_def Let_def bulkPut_def)

lemma cacheSchedule_rows:
  "cachedSchedule (cacheSchedule ss db) = bulkPut h_id (map to_cached_schedule ss) []"
  by (cases ss) (simp_all add: cacheSchedule_def Let_def bulkPut_def)

lemma k_id_to_cached [simp]: "k_id (to_cached c) = c_id c"
  and k_data_to_cached [simp]: "k_data (to_cached c) = c"
  and k_createdAt_to_cached [simp]: "k_createdAt (to_cached c) = c_created_at c"
  by (simp_all add: to_cached_def)

lemma h_to_cached_schedule [simp]: "h_id (to_cached_schedule s) = s_id s"
  "h_data (to_cached_schedule s) = s"
  by (simp_all add: to_cached_schedule_def)

lemma mset_cached_rows:
  assumes "distinct (map c_id cs)"
  shows "mset (cachedConsults (cacheConsults cs db)) = mset (map to_cached cs)"
  using bulkPut_fresh [of k_id "map to_cached cs" "[]"] assms
  by (simp add: cacheConsults_rows comp_def)


lemma index_pairs_snd:
  "map snd (List.map_filter (\<lambda>e. map_option (\<lambda>k. (k, e)) (k_createdAt e)) tbl) =
     filter (\<lambda>e. k_createdAt e \<noteq> None) tbl"
  by (induction tbl) (auto simp: List.map_filter_simps split: option.split)

lemma index_pairs_key:
  "(k, e) \<in> set (List.map_filter (\<lambda>e. map_option (\<lambda>k. (k, e)) (k_createdAt e)) tbl)
     \<Longrightarrow> k_createdAt e = Some k \<and> e \<in> set tbl"
  by (induction tbl) (auto simp: List.map_filter_simps split: option.splits)

lemma mset_index_createdAt:
  "mset (index_createdAt tbl) = mset (filter (\<lambda>e. k_createdAt e \<noteq> None) tbl)"
proof -
  have "mset (index_createdAt tbl) =
      mset (map snd (List.map_filter (\<lambda>e. map_option (\<lambda>k. (k, e)) (k_createdAt e)) tbl))"
    by (simp add: index_createdAt_def)
  then show ?thesis
    by (simp only: index_pairs_snd)
qed

lemma newest_first_index:
  assumes rows: "\<forall>e \<in> set tbl. k_createdAt e = c_created_at (k_data e)"
  shows "newest_first (map k_data (rev (index_createdAt tbl)))"
proof -
  define ps where "ps = List.map_filter (\<lambda>e. map_option (\<lambda>k. (k, e)) (k_createdAt e)) tbl"
  define sps where "sps = sort_key fst ps"
  have key: "c_created_at (k_data (snd p)) = Some (fst p)" if "p \<in> set sps" for p
  proof -
    from that have "(fst p, snd p) \<in> set ps"
      by (simp add: sps_def)
    from index_pairs_key [OF this [unfolded ps_def]] rows show ?thesis
      by auto
  qed
  have result: "map k_data (rev (index_createdAt tbl)) = map (\<lambda>p. k_data (snd p)) (rev sps)"
    by (simp add: index_createdAt_def ps_def sps_def rev_map)
  have "List.map_filter c_created_at (map (\<lambda>p. k_data (snd p)) qs) = map fst qs"
    if "set qs \<subseteq> set sps" for qs
    using that by (induction qs) (simp_all add: List.map_filter_simps key)
  from this [of "rev sps"]
  have stamps: "List.map_filter c_created_at (map (\<lambda>p. k_data (snd p)) (rev sps)) = rev (map fst sps)"
    by (simp add: rev_map)
  have "sorted (map fst sps)"
    by (simp add: sps_def)
  moreover have "list_all (\<lambda>c. c_created_at c \<noteq> None) (map (\<lambda>p. k_data (snd p)) (rev sps))"
    by (simp add: list_all_iff key)
  ultimately show ?thesis
    by (simp add: newest_first_def result stamps)
qed

text \<open>
  C8 (as amended). For every list of consults whose \<open>id\<close>s are pairwise distinct and
  which all carry a \<open>created_at\<close>, \<open>cacheConsults\<close> followed at once by
  \<open>getCachedConsults\<close> returns the same consults (as a multiset), newest first, and the
  result does not depend on what the store held before. For the schedule store, which
  has no timestamp, \<open>cacheSchedule\<close> followed by \<open>getCachedSchedule\<close> returns the same
  schedules, in the order of their \<open>id\<close>s, for every list with pairwise distinct
  \<open>id\<close>s, again whatever was there.
\<close>

theorem cacheConsults_round_trip:
  assumes ids: "distinct (map c_id consults)"
    and stamps: "list_all (\<lambda>c. c_created_at c \<noteq> None) consults"
    and schedule_ids: "distinct (map s_id schedules)"
  shows "mset (getCachedConsults (cacheConsults consults db)) = mset consults
       \<and> newest_first (getCachedConsults (cacheConsults consults db))
       \<and> getCachedConsults (cacheConsults consults db) =
           getCachedConsults (cacheConsults consults empty_db)
       \<and> mset (getCachedSchedule (cacheSchedule schedules db)) = mset schedules
       \<and> sorted_wrt (<) (map s_id (getCachedSchedule (cacheSchedule schedules db)))
       \<and> getCachedSchedule (cacheSchedule schedules db) =
           getCachedSchedule (cacheSchedule schedules empty_db)"
proof -
  have schedule_rows: "mset (bulkPut h_id (map to_cached_schedule schedules) []) =
      mset (map to_cached_schedule schedules)"
    using bulkPut_fresh [of h_id "map to_cached_schedule schedules" "[]"] schedule_ids
    by (simp add: comp_def)
  then have "image_mset h_data (mset (bulkPut h_id (map to_cached_schedule schedules) [])) =
      mset schedules"
    by (simp add: image_mset.compositionality comp_def)
  then have schedule_perm: "mset (getCachedSchedule (cacheSchedule schedules db)) = mset schedules"
    by (simp add: getCachedSchedule_def cacheSchedule_rows)
  have "sorted_wrt (<) (map h_id (bulkPut h_id (map to_cached_schedule schedules) []))"
    by (rule sorted_bulkPut) simp
  moreover have "h_id e = s_id (h_data e)"
    if "e \<in># mset (bulkPut h_id (map to_cached_schedule schedules) [])" for e
    using that unfolding schedule_rows by auto
  ultimately have schedule_order:
    "sorted_wrt (<) (map s_id (getCachedSchedule (cacheSchedule schedules db)))"
    by (simp add: getCachedSchedule_def cacheSchedule_rows comp_def cong: map_cong)
  have schedule_indep: "getCachedSchedule (cacheSchedule schedules db) =
      getCachedSchedule (cacheSchedule schedules empty_db)"
    by (simp add: getCachedSchedule_def cacheSchedule_rows)
  define tbl where "tbl = cachedConsults (cacheConsults consults db)"
  have tbl_mset: "mset tbl = mset (map to_cached consults)"
    unfolding tbl_def by (rule mset_cached_rows [OF ids])
  then have tbl_set: "set tbl = to_cached ` set consults"
    by (metis set_mset_mset set_map)
  have all_keyed: "filter (\<lambda>e. k_createdAt e \<noteq> None) tbl = tbl"
    using stamps by (auto simp: tbl_set list_all_iff)
  have "mset (index_createdAt tbl) = mset tbl"
    by (simp only: mset_index_createdAt all_keyed)
  then have "mset (getCachedConsults (cacheConsults consults db)) = image_mset k_data (mset tbl)"
    by (simp add: getCachedConsults_def tbl_def [symmetric])
  also have "\<dots> = mset consults"
    by (simp add: tbl_mset image_mset.compositionality comp_def)
  finally have perm: "mset (getCachedConsults (cacheConsults consults db)) = mset consults" .
  have "\<forall>e \<in> set tbl. k_createdAt e = c_created_at (k_data e)"
    by (auto simp: tbl_set)
  then have order: "newest_first (getCachedConsults (cacheConsults consults db))"
    unfolding getCachedConsults_def tbl_def [symmetric] by (rule newest_first_index)
  have "getCachedConsults (cacheConsults consults db) =
      getCachedConsults (cacheConsults consults empty_db)"
    by (simp add: getCachedConsults_def cacheConsults_rows)
  with perm order schedule_perm schedule_order schedule_indep show ?thesis
    by simp
qed


lemmas cache_eval =
  getCachedConsults_def cacheConsults_def index_createdAt_def bulkPut_def to_cached_def
  sample_consult_def Let_def

text \<open>
  For an arbitrary list the round trip loses records: of two consults with the same
  \<open>id\<close> only the later one is stored, and a consult without \<open>created_at\<close> is stored
  but is not in the index the read goes through.
\<close>

theorem cacheConsults_round_trip_counterexample:
  "getCachedConsults
     (cacheConsults
        [sample_consult 1 ''Ward A'' (Some ''2024-01-01T08:00:00''),
         sample_consult 1 ''Ward B'' (Some ''2024-01-02T08:00:00'')] empty_db)
     = [sample_consult 1 ''Ward B'' (Some ''2024-01-02T08:00:00'')]
   \<and> getCachedConsults (cacheConsults [sample_consult 1 ''Ward A'' None] empty_db) = []"
  by (simp add: cache_eval empty_db_def)

theorem cacheConsults_round_trip_witness:
  "distinct (map c_id
      [sample_consult 1 ''Ward A'' (Some ''2024-01-01T08:00:00''),
       sample_consult 2 ''Ward B'' (Some ''2024-03-01T08:00:00''),
       sample_consult 3 ''Ward C'' (Some ''2024-02-01T08:00:00'')])
   \<and> list_all (\<lambda>c. c_created_at c \<noteq> None)
      [sample_consult 1 ''Ward A'' (Some ''2024-01-01T08:00:00''),
       sample_consult 2 ''Ward B'' (Some ''2024-03-01T08:00:00''),
       sample_consult 3 ''Ward C'' (Some ''2024-02-01T08:00:00'')]
   \<and> distinct (map s_id [sample_schedule 2 ''Tuesday'', sample_schedule 1 ''Monday''])
   \<and> map c_id (getCachedConsults
        (cacheConsults
           [sample_consult 1 ''Ward A'' (Some ''2024-01-01T08:00:00''),
            sample_consult 2 ''Ward B'' (Some ''2024-03-01T08:00:00''),
            sample_consult 3 ''Ward C'' (Some ''2024-02-01T08:00:00'')]
           (cacheConsults [sample_consult 9 ''Ward Z'' (Some ''2023-01-01T08:00:00'')] empty_db)))
       = [2, 3, 1]
   \<and> newest_first (getCachedConsults
        (cacheConsults
           [sample_consult 1 ''Ward A'' (Some ''2024-01-01T08:00:00''),
            sample_consult 2 ''Ward B'' (Some ''2024-03-01T08:00:00''),
            sample_consult 3 ''Ward C'' (Some ''2024-02-01T08:00:00'')]
           (cacheConsults [sample_consult 9 ''Ward Z'' (Some ''2023-01-01T08:00:00'')] empty_db)))"
proof -
  define cs where "cs =
    [sample_consult 1 ''Ward A'' (Some ''2024-01-01T08:00:00''),
     sample_consult 2 ''Ward B'' (Some ''2024-03-01T08:00:00''),
     sample_consult 3 ''Ward C'' (Some ''2024-02-01T08:00:00'')]"
  define db where "db = cacheConsults [sample_consult 9 ''Ward Z'' (Some ''2023-01-01T08:00:00'')] empty_db"
  have ids: "distinct (map c_id cs)"
    by (simp add: cs_def sample_consult_def)
  have stamps: "list_all (\<lambda>c. c_created_at c \<noteq> None) cs"
    by (simp add: cs_def sample_consult_def)
  have schedule_ids: "distinct (map s_id [sample_schedule 2 ''Tuesday'', sample_schedule 1 ''Monday''])"
    by (simp add: sample_schedule_def)
  have order: "map c_id (getCachedConsults (cacheConsults cs empty_db)) = [2, 3, 1]"
    by (simp add: cs_def cache_eval empty_db_def)
  note round_trip = cacheConsults_round_trip [OF ids stamps schedule_ids, of db]
  from round_trip have "newest_first (getCachedConsults (cacheConsults cs db))"
    by blast
  moreover from round_trip
  have "getCachedConsults (cacheConsults cs db) = getCachedConsults (cacheConsults cs empty_db)"
    by blast
  ultimately show ?thesis
    using order ids stamps schedule_ids
    unfolding cs_def db_def by simp
qed

subsection \<open>The strategies of the fetch listener\<close>

lemma cache_match_caches_open [simp]:
  "cache_match name url (caches_open name cs) = cache_match name url cs"
proof (cases "name \<in> set (caches_keys cs)")
  case True
  then show ?thesis by (simp add: caches_open_def)
next
  case False
  then have "map_of cs name = None"
    by (simp add: map_of_eq_None_iff caches_keys_def)
  with False show ?thesis
    by (simp add: cache_match_def caches_open_def map_add_def)
qed














end
